theory Spec2Isabelle
  imports Main
begin

section \<open>Diffie-Hellman key exchange: the embedding\<close>

text \<open>
  A shallow embedding of \<^verbatim>\<open>diffie_hellman/diffie_hellman.py\<close>. Python integers are
  unbounded, so they are \<^typ>\<open>int\<close>; Python's \<^verbatim>\<open>%\<close> and \<^verbatim>\<open>//\<close> are floor
  modulo and floor division, as \<open>mod\<close> and \<open>div\<close> on \<^typ>\<open>int\<close> are. Every
  \<^verbatim>\<open>raise\<close> is a value of the type \<open>error\<close>, every \<^verbatim>\<open>print\<close> a value of the
  type \<open>printed\<close>, in the order the program prints.
\<close>

subsection \<open>Data\<close>

text \<open>\<^verbatim>\<open>RECOMMENDED_N_BIT_LENGTH = 2048\<close>\<close>

definition RECOMMENDED_N_BIT_LENGTH :: nat where
  "RECOMMENDED_N_BIT_LENGTH = 2048"

text \<open>The dataclass \<^verbatim>\<open>PrimeError\<close>, with its one field.\<close>

datatype PrimeError = PrimeError (divisor: int)

text \<open>The dataclass \<^verbatim>\<open>PrimitiveRootError\<close>, with its three fields in their order.\<close>

datatype PrimitiveRootError =
  PrimitiveRootError (current: int) (remainder: int) (previous: int)

text \<open>
  The dataclass \<^verbatim>\<open>DiffieHellmanConstants\<close>, fields \<^verbatim>\<open>g\<close> and \<^verbatim>\<open>n\<close>. The generated
  \<^verbatim>\<open>__eq__\<close> compares the tuples of fields, which is the equality of the record.
\<close>

record DiffieHellmanConstants =
  g_of :: int
  n_of :: int

text \<open>The dataclass \<^verbatim>\<open>DiffieHellman\<close>.\<close>

record DiffieHellman =
  constants :: DiffieHellmanConstants
  secret :: int

text \<open>
  The exceptions the program can raise. Each \<^verbatim>\<open>ValueError\<close> carries the values its
  message is formatted from:
  \<^item> \<open>ValueError_n_zero\<close>: "n cannot be zero, it isn't even prime."
  \<^item> \<open>ValueError_n_one\<close>: "n cannot be one, it isn't even prime."
  \<^item> \<open>ValueError_n_not_prime m d q\<close>: "n=m needs to be prime, found m / d = q"
  \<^item> \<open>ValueError_not_primitive_root b m c r p\<close>: "g=b is not a primitive root module
    n=m, g**c%n=r which was already found at g**p%n."
  \<^item> \<open>ValueError_secret_small s\<close>: "secret=s needs to be at least 1"
  \<^item> \<open>ValueError_secret_large s m\<close>: "secret=s needs to be less than n=m"
  \<^item> \<open>ValueError_constants c d\<close>: "Alice and Bob need to be using the same
    DiffieHellmanConstants, got: Alice=c, Bob=d"
  \<^item> \<open>AttributeError\<close>: reading \<^verbatim>\<open>.divisor\<close> of \<^verbatim>\<open>None\<close>
  \<^item> \<open>AssertionError\<close>: the \<^verbatim>\<open>assert\<close> of \<^verbatim>\<open>diffie_hellman\<close>
  \<^item> \<open>ZeroDivisionError\<close>: an integer modulo zero, or zero to a negative power
  \<^item> \<open>FloatResult\<close>: a nonzero integer raised to a negative power is computed in
    floating point (a float, or an exception of float arithmetic); the embedding has
    integers only and ends its account of the run there with this outcome.
\<close>

datatype error =
    ValueError_n_zero
  | ValueError_n_one
  | ValueError_n_not_prime int int int
  | ValueError_not_primitive_root int int int int int
  | ValueError_secret_small int
  | ValueError_secret_large int int
  | ValueError_constants DiffieHellmanConstants DiffieHellmanConstants
  | AttributeError
  | AssertionError
  | ZeroDivisionError
  | FloatResult

text \<open>
  The lines the program prints:
  \<^item> \<open>Warning_bit_length m b r\<close>: "Warning: n=m has a bit length of b which is less
    than the recommended r bits."
  \<^item> \<open>Alice_public v\<close>: "Alice's Public Value: v"
  \<^item> \<open>Bob_public v\<close>: "Bob's   Public Value: v"
\<close>

datatype printed =
    Warning_bit_length int nat nat
  | Alice_public int
  | Bob_public int

subsection \<open>\<^verbatim>\<open>is_prime\<close>\<close>

text \<open>
  The \<^verbatim>\<open>while i ** 2 <= n\<close> loop, entered with \<^verbatim>\<open>i = 5\<close>; \<^verbatim>\<open>i\<close> only grows, so
  neither \<^verbatim>\<open>n % i\<close> nor \<^verbatim>\<open>n % (i + 2)\<close> divides by zero.
\<close>

function is_prime_loop :: "int \<Rightarrow> int \<Rightarrow> bool \<times> PrimeError option" where
  "is_prime_loop n i =
     (if i ^ 2 \<le> n then
        if n mod i = 0 then (False, Some (PrimeError i))
        else if n mod (i + 2) = 0 then (False, Some (PrimeError (i + 2)))
        else is_prime_loop n (i + 6)
      else (True, None))"
  by pat_completeness auto
termination
proof (relation "measure (\<lambda>(n, i). nat (n - i + 1))")
  show "wf (measure (\<lambda>(n, i). nat (n - i + 1)))" by simp
next
  fix n i :: int
  assume "i ^ 2 \<le> n"
  moreover have "i \<le> i ^ 2"
  proof (cases "1 \<le> i")
    case True
    then show ?thesis by (simp add: self_le_power)
  next
    case False
    then have "i \<le> 0" by simp
    also have "0 \<le> i ^ 2" by simp
    finally show ?thesis .
  qed
  ultimately show "((n, i + 6), (n, i)) \<in> measure (\<lambda>(n, i). nat (n - i + 1))"
    by simp
qed

declare is_prime_loop.simps [simp del]

definition is_prime :: "int \<Rightarrow> bool \<times> PrimeError option" where
  "is_prime n =
     (if n \<le> 3 then (n > 1, None)
      else if n mod 2 = 0 then (False, Some (PrimeError 2))
      else if n mod 3 = 0 then (False, Some (PrimeError 3))
      else is_prime_loop n 5)"

subsection \<open>\<^verbatim>\<open>is_primitive_root_modulo_n\<close>\<close>

text \<open>
  The body of \<^verbatim>\<open>for i in range(n - 1)\<close>, over the exponents still to visit. The
  dictionary \<^verbatim>\<open>remainders\<close> is a map from residue to exponent. In the loop
  \<open>0 \<le> i\<close> and \<open>2 \<le> n\<close>, so \<^verbatim>\<open>g ** i % n\<close> is an integer power and a modulo by a
  positive number.
\<close>

fun root_loop ::
  "int \<Rightarrow> int \<Rightarrow> (int \<rightharpoonup> int) \<Rightarrow> int list \<Rightarrow> bool \<times> PrimitiveRootError option" where
  "root_loop g n remainders [] = (True, None)"
| "root_loop g n remainders (i # rest) =
     (let r = g ^ nat i mod n in
      case remainders r of
        Some p \<Rightarrow> (False, Some (PrimitiveRootError i r p))
      | None \<Rightarrow> root_loop g n (remainders(r \<mapsto> i)) rest)"

text \<open>\<^verbatim>\<open>range(n - 1)\<close> is the list of the integers from 0 to \<open>n - 2\<close>, empty when \<open>n \<le> 1\<close>.\<close>

definition is_primitive_root_modulo_n ::
  "int \<Rightarrow> int \<Rightarrow> bool \<times> PrimitiveRootError option" where
  "is_primitive_root_modulo_n g n = root_loop g n Map.empty [0..n - 2]"

subsection \<open>\<^verbatim>\<open>DiffieHellmanConstants.__post_init__\<close>\<close>

text \<open>\<^verbatim>\<open>int.bit_length()\<close>: the number of bits of the absolute value.\<close>

fun bit_length_nat :: "nat \<Rightarrow> nat" where
  "bit_length_nat k = (if k = 0 then 0 else Suc (bit_length_nat (k div 2)))"

declare bit_length_nat.simps [simp del]

definition bit_length :: "int \<Rightarrow> nat" where
  "bit_length k = bit_length_nat (nat \<bar>k\<bar>)"

text \<open>
  Construction of \<^verbatim>\<open>DiffieHellmanConstants(g, n)\<close>: what was printed, and either the
  exception raised or the object. When \<^verbatim>\<open>is_prime\<close> gives no \<^verbatim>\<open>PrimeError\<close>
  and \<open>n\<close> is neither 0 nor 1, the message reads \<^verbatim>\<open>error.divisor\<close> of \<^verbatim>\<open>None\<close>.
\<close>

definition DiffieHellmanConstants_init ::
  "int \<Rightarrow> int \<Rightarrow> printed list \<times> (error + DiffieHellmanConstants)" where
  "DiffieHellmanConstants_init g n =
     (case is_prime n of (prime, perr) \<Rightarrow>
        if \<not> prime then
          if n = 0 then ([], Inl ValueError_n_zero)
          else if n = 1 then ([], Inl ValueError_n_one)
          else (case perr of
                  None \<Rightarrow> ([], Inl AttributeError)
                | Some e \<Rightarrow>
                    ([], Inl (ValueError_n_not_prime n (divisor e) (n div divisor e))))
        else
          let out = (if bit_length n < RECOMMENDED_N_BIT_LENGTH
                     then [Warning_bit_length n (bit_length n) RECOMMENDED_N_BIT_LENGTH]
                     else [])
          in case is_primitive_root_modulo_n g n of (root, rerr) \<Rightarrow>
               if \<not> root then
                 (case rerr of
                    None \<Rightarrow> (out, Inl AttributeError)
                  | Some e \<Rightarrow>
                      (out, Inl (ValueError_not_primitive_root g n
                                   (current e) (remainder e) (previous e))))
               else (out, Inr \<lparr>g_of = g, n_of = n\<rparr>))"

subsection \<open>\<^verbatim>\<open>DiffieHellman.__post_init__\<close>\<close>

definition DiffieHellman_init :: "DiffieHellmanConstants \<Rightarrow> int \<Rightarrow> error + DiffieHellman" where
  "DiffieHellman_init c s =
     (if s < 1 then Inl (ValueError_secret_small s)
      else if s > n_of c then Inl (ValueError_secret_large s (n_of c))
      else Inr \<lparr>constants = c, secret = s\<rparr>)"

subsection \<open>The exchange\<close>

text \<open>
  \<^verbatim>\<open>b ** e % m\<close> on Python integers: the power first, then the modulo. With
  \<open>e < 0\<close> the power raises \<^verbatim>\<open>ZeroDivisionError\<close> when \<open>b = 0\<close> and is computed in
  floating point otherwise; with \<open>0 \<le> e\<close> it is the integer power, and the modulo
  raises when \<open>m = 0\<close>.
\<close>

definition pow_mod :: "int \<Rightarrow> int \<Rightarrow> int \<Rightarrow> error + int" where
  "pow_mod b e m =
     (if e < 0 then (if b = 0 then Inl ZeroDivisionError else Inl FloatResult)
      else if m = 0 then Inl ZeroDivisionError
      else Inr (b ^ nat e mod m))"

definition calculate_public :: "DiffieHellman \<Rightarrow> error + int" where
  "calculate_public dh = pow_mod (g_of (constants dh)) (secret dh) (n_of (constants dh))"

definition calculate_shared :: "DiffieHellman \<Rightarrow> int \<Rightarrow> error + int" where
  "calculate_shared dh public = pow_mod public (secret dh) (n_of (constants dh))"

text \<open>
  \<^verbatim>\<open>diffie_hellman(alice, bob)\<close>: the lines printed, and the exception or the value
  returned.
\<close>

definition diffie_hellman :: "DiffieHellman \<Rightarrow> DiffieHellman \<Rightarrow> printed list \<times> (error + int)" where
  "diffie_hellman alice bob =
     (if constants alice \<noteq> constants bob
      then ([], Inl (ValueError_constants (constants alice) (constants bob)))
      else case calculate_public alice of
        Inl e \<Rightarrow> ([], Inl e)
      | Inr alice_public \<Rightarrow>
          (case calculate_public bob of
             Inl e \<Rightarrow> ([Alice_public alice_public], Inl e)
           | Inr bob_public \<Rightarrow>
               (let out = [Alice_public alice_public, Bob_public bob_public] in
                case calculate_shared alice bob_public of
                  Inl e \<Rightarrow> (out, Inl e)
                | Inr alice_shared \<Rightarrow>
                    (case calculate_shared bob alice_public of
                       Inl e \<Rightarrow> (out, Inl e)
                     | Inr bob_shared \<Rightarrow>
                         if alice_shared = bob_shared then (out, Inr alice_shared)
                         else (out, Inl AssertionError)))))"

section \<open>The tables of the tests\<close>

text \<open>
  From \<^verbatim>\<open>diffie_hellman_test.py\<close>: the primes up to 100 and the parameters of
  \<^verbatim>\<open>test_is_prime\<close>, one pair for each number of \<^verbatim>\<open>range(101)\<close>.
\<close>

definition PRIMES :: "int list" where
  "PRIMES = [2, 3, 5, 7, 11, 13, 17, 19, 23, 29, 31, 37, 41, 43, 47, 53, 59, 61, 67, 71,
             73, 79, 83, 89, 97]"

definition PRIME_PARAMS :: "(int \<times> bool) list" where
  "PRIME_PARAMS = map (\<lambda>i. (i, i \<in> set PRIMES)) [0..100]"

text \<open>
  The body of \<^verbatim>\<open>test_is_prime\<close>: the answer is the expected one, and where a
  \<^verbatim>\<open>PrimeError\<close> comes back its divisor divides the number.
\<close>

definition test_is_prime :: "int \<times> bool \<Rightarrow> bool" where
  "test_is_prime = (\<lambda>(number, prime).
     case is_prime number of (maybe_prime, perr) \<Rightarrow>
       maybe_prime = prime
       \<and> (case perr of None \<Rightarrow> True | Some e \<Rightarrow> number mod divisor e = 0))"

text \<open>
  The primitive roots of the primes from 5 to 31, and the parameters of
  \<^verbatim>\<open>test_is_primitive_root_modulo_n\<close>: for each prime \<open>n\<close> of the table, every \<open>i\<close>
  of \<^verbatim>\<open>range(n)\<close> with the expected answer.
\<close>

definition PRIMITIVE_ROOTS :: "(int \<times> int list) list" where
  "PRIMITIVE_ROOTS =
     [(5, [2, 3]),
      (7, [3, 5]),
      (11, [2, 6, 7, 8]),
      (13, [2, 6, 7, 11]),
      (17, [3, 5, 6, 7, 10, 11, 12, 14]),
      (19, [2, 3, 10, 13, 14, 15]),
      (23, [5, 7, 10, 11, 14, 15, 17, 19, 20, 21]),
      (29, [2, 3, 8, 10, 11, 14, 15, 18, 19, 21, 26, 27]),
      (31, [3, 11, 12, 13, 17, 21, 22, 24])]"

definition ROOT_PARAMS :: "(int \<times> int \<times> bool) list" where
  "ROOT_PARAMS =
     concat (map (\<lambda>(n, roots). map (\<lambda>i. (i, n, i \<in> set roots)) [0..n - 1]) PRIMITIVE_ROOTS)"

section \<open>The notions of the specification\<close>

text \<open>A prime: an integer above 1 that no integer strictly between 1 and itself divides.\<close>

definition prime_spec :: "int \<Rightarrow> bool" where
  "prime_spec n \<longleftrightarrow> 1 < n \<and> (\<forall>d. 1 < d \<and> d < n \<longrightarrow> \<not> d dvd n)"

text \<open>
  A primitive root modulo \<open>n\<close>, the notion that the docstring of
  \<^verbatim>\<open>is_primitive_root_modulo_n\<close> names: \<open>g\<close> is coprime to \<open>n\<close>, and every residue from
  1 to \<open>n - 1\<close> that is coprime to \<open>n\<close> is a power of \<open>g\<close> modulo \<open>n\<close>.
\<close>

definition primitive_root_spec :: "int \<Rightarrow> int \<Rightarrow> bool" where
  "primitive_root_spec g n \<longleftrightarrow>
     coprime g n \<and> (\<forall>a. 1 \<le> a \<and> a < n \<and> coprime a n \<longrightarrow> (\<exists>k::nat. g ^ k mod n = a))"

text \<open>
  Trial division as the specification words it: over the integers of the form
  \<open>6k \<plusminus> 1\<close>, from 5 up to the integer square root of \<open>n\<close> (\<open>d\<close> is at most the
  floor of the square root of \<open>n\<close> exactly when \<open>d\<^sup>2 \<le> n\<close>), in increasing order;
  the first that divides \<open>n\<close> is the witness, and \<open>n\<close> is prime when there is none.
\<close>

definition wheel_spec :: "int \<Rightarrow> int list" where
  "wheel_spec n = filter (\<lambda>d. d ^ 2 \<le> n \<and> (d mod 6 = 1 \<or> d mod 6 = 5)) [5..n]"

definition trial_division_spec :: "int \<Rightarrow> bool \<times> PrimeError option" where
  "trial_division_spec n =
     (case find (\<lambda>d. n mod d = 0) (wheel_spec n) of
        None \<Rightarrow> (True, None)
      | Some d \<Rightarrow> (False, Some (PrimeError d)))"

section \<open>Loop invariants\<close>

text \<open>No integer from 2 up to, but not including, \<open>i\<close> divides \<open>n\<close>.\<close>

definition no_divisor_below :: "int \<Rightarrow> int \<Rightarrow> bool" where
  "no_divisor_below n i \<longleftrightarrow> (\<forall>d. 2 \<le> d \<and> d < i \<longrightarrow> \<not> d dvd n)"

text \<open>
  The dictionary when the scan is about to visit the exponent \<open>i\<close>: every entry maps a
  residue to the smallest exponent that produces it, and the residue of every exponent
  below \<open>i\<close> has an entry.
\<close>

definition first_seen :: "int \<Rightarrow> int \<Rightarrow> (int \<rightharpoonup> int) \<Rightarrow> int \<Rightarrow> bool" where
  "first_seen g n m i \<longleftrightarrow>
     (\<forall>r q. m r = Some q \<longrightarrow>
        0 \<le> q \<and> q < i \<and> g ^ nat q mod n = r \<and> (\<forall>k. 0 \<le> k \<and> k < q \<longrightarrow> g ^ nat k mod n \<noteq> r))
   \<and> (\<forall>k. 0 \<le> k \<and> k < i \<longrightarrow> m (g ^ nat k mod n) \<noteq> None)"

section \<open>Properties\<close>

subsection \<open>Shared facts\<close>

lemma is_prime_ge_2: "fst (is_prime n) \<Longrightarrow> 2 \<le> n"
  by (auto simp: is_prime_def split: if_splits)

lemma init_Inr:
  "snd (DiffieHellmanConstants_init g n) = Inr c \<Longrightarrow>
     c = \<lparr>g_of = g, n_of = n\<rparr> \<and> fst (is_prime n) \<and> fst (is_primitive_root_modulo_n g n)"
  by (auto simp: DiffieHellmanConstants_init_def Let_def
           split: prod.splits if_splits option.splits)

lemma participant_Inr:
  "DiffieHellman_init c s = Inr p \<Longrightarrow>
     p = \<lparr>constants = c, secret = s\<rparr> \<and> 1 \<le> s \<and> s \<le> n_of c"
  by (auto simp: DiffieHellman_init_def split: if_splits)

lemma pow_mod_nonneg: "0 \<le> e \<Longrightarrow> m \<noteq> 0 \<Longrightarrow> pow_mod b e m = Inr (b ^ nat e mod m)"
  by (simp add: pow_mod_def)

lemma shared_agree: "((b :: int) ^ x mod m) ^ y mod m = (b ^ y mod m) ^ x mod m"
  by (simp add: power_mod flip: power_mult) (simp add: mult.commute)

subsection \<open>The boundary of \<^verbatim>\<open>is_prime\<close>\<close>

text \<open>
  C9. For every integer \<open>n \<le> 3\<close>, negative ones included, \<^verbatim>\<open>is_prime(n)\<close> returns the
  pair of the truth value of \<open>n > 1\<close> and no \<^verbatim>\<open>PrimeError\<close>: the first test of the
  function decides, and no test for negative numbers comes before it.
\<close>

theorem is_prime_small:
  "n \<le> 3 \<Longrightarrow> is_prime n = (n > 1, None)"
  by (simp add: is_prime_def)

theorem is_prime_small_witness:
  "(-7::int) \<le> 3 \<and> is_prime (-7) = (False, None) \<and> is_prime 0 = (False, None)
   \<and> is_prime 1 = (False, None) \<and> is_prime 2 = (True, None) \<and> is_prime 3 = (True, None)"
  using is_prime_small [of "-7"] is_prime_small [of 0] is_prime_small [of 1]
    is_prime_small [of 2] is_prime_small [of 3]
  by simp

subsection \<open>The smallest moduli of \<^verbatim>\<open>is_primitive_root_modulo_n\<close>\<close>

text \<open>
  C10. For every \<open>g\<close>, \<^verbatim>\<open>is_primitive_root_modulo_n(g, 2)\<close> visits the exponent 0 only
  and returns \<^verbatim>\<open>(True, None)\<close>; for \<open>n \<le> 1\<close> the loop is empty and the result is
  \<^verbatim>\<open>(True, None)\<close> as well. So \<^verbatim>\<open>DiffieHellmanConstants(g, 2)\<close> is constructed for
  every \<open>g\<close>, 0 and 1 included.
\<close>

theorem root_modulo_2:
  "is_primitive_root_modulo_n g 2 = root_loop g 2 Map.empty [0]
   \<and> is_primitive_root_modulo_n g 2 = (True, None)
   \<and> (n \<le> 1 \<longrightarrow> is_primitive_root_modulo_n g n = root_loop g n Map.empty []
                \<and> is_primitive_root_modulo_n g n = (True, None))
   \<and> snd (DiffieHellmanConstants_init g 2) = Inr \<lparr>g_of = g, n_of = 2\<rparr>"
  by (simp add: is_primitive_root_modulo_n_def upto.simps DiffieHellmanConstants_init_def
        is_prime_def)

theorem root_modulo_2_witness:
  "is_primitive_root_modulo_n 0 2 = (True, None)
   \<and> (1::int) \<le> 1 \<and> is_primitive_root_modulo_n 0 1 = (True, None)
   \<and> (-4::int) \<le> 1 \<and> is_primitive_root_modulo_n 1 (-4) = (True, None)
   \<and> snd (DiffieHellmanConstants_init 0 2) = Inr \<lparr>g_of = 0, n_of = 2\<rparr>
   \<and> snd (DiffieHellmanConstants_init 1 2) = Inr \<lparr>g_of = 1, n_of = 2\<rparr>"
  using root_modulo_2 [of 0 1] root_modulo_2 [of 1 "-4"]
  by simp

subsection \<open>The running example: \<open>g = 5\<close>, \<open>n = 23\<close>\<close>

lemma init_5_23:
  "snd (DiffieHellmanConstants_init 5 23) = Inr \<lparr>g_of = 5, n_of = 23\<rparr>"
  by code_simp

lemma init_7_23:
  "snd (DiffieHellmanConstants_init 7 23) = Inr \<lparr>g_of = 7, n_of = 23\<rparr>"
  by code_simp

lemma participant_5_23_4:
  "DiffieHellman_init \<lparr>g_of = 5, n_of = 23\<rparr> 4
     = Inr \<lparr>constants = \<lparr>g_of = 5, n_of = 23\<rparr>, secret = 4\<rparr>"
  by (simp add: DiffieHellman_init_def)

lemma participant_5_23_3:
  "DiffieHellman_init \<lparr>g_of = 5, n_of = 23\<rparr> 3
     = Inr \<lparr>constants = \<lparr>g_of = 5, n_of = 23\<rparr>, secret = 3\<rparr>"
  by (simp add: DiffieHellman_init_def)

lemma participant_7_23_3:
  "DiffieHellman_init \<lparr>g_of = 7, n_of = 23\<rparr> 3
     = Inr \<lparr>constants = \<lparr>g_of = 7, n_of = 23\<rparr>, secret = 3\<rparr>"
  by (simp add: DiffieHellman_init_def)

subsection \<open>Construction of a participant\<close>

text \<open>
  C8. For constants that were constructed (so \<open>n\<close> passed \<^verbatim>\<open>is_prime\<close>) and every
  integer secret \<open>s\<close>, \<^verbatim>\<open>DiffieHellman(constants, s)\<close> is constructed if and only if
  \<open>1 \<le> s \<le> n\<close>, so \<open>s = n\<close> is accepted; for \<open>s < 1\<close> it raises the
  "needs to be at least 1" error and for \<open>s > n\<close> the "needs to be less than n" error.
  The witness has the secrets -3, 0, -100 and 100, 1000, 20000 of the tests, with \<open>n = 23\<close>.
\<close>

theorem participant_range:
  assumes "snd (DiffieHellmanConstants_init g n) = Inr c"
  shows "((\<exists>p. DiffieHellman_init c s = Inr p) \<longleftrightarrow> 1 \<le> s \<and> s \<le> n)
    \<and> (1 \<le> s \<and> s \<le> n \<longrightarrow> DiffieHellman_init c s = Inr \<lparr>constants = c, secret = s\<rparr>)
    \<and> DiffieHellman_init c n = Inr \<lparr>constants = c, secret = n\<rparr>
    \<and> (s < 1 \<longrightarrow> DiffieHellman_init c s = Inl (ValueError_secret_small s))
    \<and> (s > n \<longrightarrow> DiffieHellman_init c s = Inl (ValueError_secret_large s n))"
proof -
  from assms have c: "n_of c = n" and "fst (is_prime n)"
    using init_Inr [of g n c] by auto
  then have "2 \<le> n" by (simp add: is_prime_ge_2)
  with c show ?thesis by (auto simp: DiffieHellman_init_def)
qed

theorem participant_range_witness:
  "snd (DiffieHellmanConstants_init 5 23) = Inr \<lparr>g_of = 5, n_of = 23\<rparr>
   \<and> DiffieHellman_init \<lparr>g_of = 5, n_of = 23\<rparr> 23
       = Inr \<lparr>constants = \<lparr>g_of = 5, n_of = 23\<rparr>, secret = 23\<rparr>
   \<and> DiffieHellman_init \<lparr>g_of = 5, n_of = 23\<rparr> 1
       = Inr \<lparr>constants = \<lparr>g_of = 5, n_of = 23\<rparr>, secret = 1\<rparr>
   \<and> DiffieHellman_init \<lparr>g_of = 5, n_of = 23\<rparr> (-3) = Inl (ValueError_secret_small (-3))
   \<and> DiffieHellman_init \<lparr>g_of = 5, n_of = 23\<rparr> 0 = Inl (ValueError_secret_small 0)
   \<and> DiffieHellman_init \<lparr>g_of = 5, n_of = 23\<rparr> (-100) = Inl (ValueError_secret_small (-100))
   \<and> DiffieHellman_init \<lparr>g_of = 5, n_of = 23\<rparr> 24 = Inl (ValueError_secret_large 24 23)
   \<and> DiffieHellman_init \<lparr>g_of = 5, n_of = 23\<rparr> 100 = Inl (ValueError_secret_large 100 23)
   \<and> DiffieHellman_init \<lparr>g_of = 5, n_of = 23\<rparr> 1000 = Inl (ValueError_secret_large 1000 23)
   \<and> DiffieHellman_init \<lparr>g_of = 5, n_of = 23\<rparr> 20000 = Inl (ValueError_secret_large 20000 23)"
  using init_5_23
    participant_range [OF init_5_23, of 1]
    participant_range [OF init_5_23, of "-3"]
    participant_range [OF init_5_23, of 0]
    participant_range [OF init_5_23, of "-100"]
    participant_range [OF init_5_23, of 24]
    participant_range [OF init_5_23, of 100]
    participant_range [OF init_5_23, of 1000]
    participant_range [OF init_5_23, of 20000]
  by simp

subsection \<open>Public and shared values\<close>

text \<open>
  C2. For every participant (a \<^verbatim>\<open>DiffieHellman\<close> that was constructed),
  \<^verbatim>\<open>calculate_public\<close> returns \<open>g ^ secret mod n\<close> and \<^verbatim>\<open>calculate_shared\<close> returns
  \<open>peer_public ^ secret mod n\<close>. The witness has the values of the tests for
  \<open>g = 5\<close>, \<open>n = 23\<close>: secret 4 gives the public value 4, secret 3 gives 10, and the
  shared value is 18 from secret 4 with the peer's 10 and from secret 3 with the peer's 4.
\<close>

theorem calculate_public_shared:
  assumes "DiffieHellman_init c s = Inr p"
  shows "calculate_public p = Inr (g_of c ^ nat s mod n_of c)
    \<and> calculate_shared p peer_public = Inr (peer_public ^ nat s mod n_of c)"
  using participant_Inr [OF assms]
  by (auto simp: calculate_public_def calculate_shared_def pow_mod_nonneg)

theorem calculate_public_shared_witness:
  "DiffieHellman_init \<lparr>g_of = 5, n_of = 23\<rparr> 4
     = Inr \<lparr>constants = \<lparr>g_of = 5, n_of = 23\<rparr>, secret = 4\<rparr>
   \<and> DiffieHellman_init \<lparr>g_of = 5, n_of = 23\<rparr> 3
     = Inr \<lparr>constants = \<lparr>g_of = 5, n_of = 23\<rparr>, secret = 3\<rparr>
   \<and> calculate_public \<lparr>constants = \<lparr>g_of = 5, n_of = 23\<rparr>, secret = 4\<rparr> = Inr 4
   \<and> calculate_public \<lparr>constants = \<lparr>g_of = 5, n_of = 23\<rparr>, secret = 3\<rparr> = Inr 10
   \<and> calculate_shared \<lparr>constants = \<lparr>g_of = 5, n_of = 23\<rparr>, secret = 4\<rparr> 10 = Inr 18
   \<and> calculate_shared \<lparr>constants = \<lparr>g_of = 5, n_of = 23\<rparr>, secret = 3\<rparr> 4 = Inr 18"
  using participant_5_23_4 participant_5_23_3
    calculate_public_shared [OF participant_5_23_4, of 10]
    calculate_public_shared [OF participant_5_23_3, of 4]
  by simp

subsection \<open>The two sides agree\<close>

text \<open>
  C1. For two participants constructed over equal constants (so \<open>n\<close> passed
  \<^verbatim>\<open>is_prime\<close>, \<open>g\<close> passed \<^verbatim>\<open>is_primitive_root_modulo_n\<close> and both secrets are in
  \<open>[1, n]\<close>), the shared values computed on the two sides are equal:
  \<open>(g ^ a mod n) ^ b mod n = (g ^ b mod n) ^ a mod n\<close>. So the \<^verbatim>\<open>assert\<close> of
  \<^verbatim>\<open>diffie_hellman\<close> does not fail, and the value returned is the shared value of both.
\<close>

theorem shared_secrets_agree:
  assumes "snd (DiffieHellmanConstants_init g n) = Inr c"
    and "snd (DiffieHellmanConstants_init g' n') = Inr c'"
    and "c = c'"
    and "DiffieHellman_init c a = Inr alice"
    and "DiffieHellman_init c' b = Inr bob"
  shows "(g ^ nat a mod n) ^ nat b mod n = (g ^ nat b mod n) ^ nat a mod n
    \<and> calculate_public alice = Inr (g ^ nat a mod n)
    \<and> calculate_public bob = Inr (g ^ nat b mod n)
    \<and> calculate_shared alice (g ^ nat b mod n) = Inr ((g ^ nat b mod n) ^ nat a mod n)
    \<and> calculate_shared bob (g ^ nat a mod n) = Inr ((g ^ nat a mod n) ^ nat b mod n)
    \<and> diffie_hellman alice bob
        = ([Alice_public (g ^ nat a mod n), Bob_public (g ^ nat b mod n)],
           Inr ((g ^ nat b mod n) ^ nat a mod n))
    \<and> snd (diffie_hellman alice bob) \<noteq> Inl AssertionError"
proof -
  from assms(1) have c: "c = \<lparr>g_of = g, n_of = n\<rparr>" using init_Inr by blast
  from assms(4) have alice: "alice = \<lparr>constants = c, secret = a\<rparr>" "1 \<le> a" "a \<le> n_of c"
    using participant_Inr by blast+
  from assms(5) assms(3) have bob: "bob = \<lparr>constants = c, secret = b\<rparr>" "1 \<le> b" "b \<le> n_of c"
    using participant_Inr by blast+
  have n: "n \<noteq> 0" using alice c by auto
  have agree: "(g ^ nat a mod n) ^ nat b mod n = (g ^ nat b mod n) ^ nat a mod n"
    by (rule shared_agree)
  have pa: "calculate_public alice = Inr (g ^ nat a mod n)"
    using alice c n by (simp add: calculate_public_def pow_mod_nonneg)
  have pb: "calculate_public bob = Inr (g ^ nat b mod n)"
    using bob c n by (simp add: calculate_public_def pow_mod_nonneg)
  have sa: "calculate_shared alice (g ^ nat b mod n) = Inr ((g ^ nat b mod n) ^ nat a mod n)"
    using alice c n by (simp add: calculate_shared_def pow_mod_nonneg)
  have sb: "calculate_shared bob (g ^ nat a mod n) = Inr ((g ^ nat a mod n) ^ nat b mod n)"
    using bob c n by (simp add: calculate_shared_def pow_mod_nonneg)
  have same: "constants alice = constants bob" using alice bob by simp
  have dh: "diffie_hellman alice bob
        = ([Alice_public (g ^ nat a mod n), Bob_public (g ^ nat b mod n)],
           Inr ((g ^ nat b mod n) ^ nat a mod n))"
    unfolding diffie_hellman_def using same pa pb sa sb agree by simp
  from agree pa pb sa sb dh show ?thesis by simp
qed

theorem shared_secrets_agree_witness:
  "snd (DiffieHellmanConstants_init 5 23) = Inr \<lparr>g_of = 5, n_of = 23\<rparr>
   \<and> DiffieHellman_init \<lparr>g_of = 5, n_of = 23\<rparr> 4
       = Inr \<lparr>constants = \<lparr>g_of = 5, n_of = 23\<rparr>, secret = 4\<rparr>
   \<and> DiffieHellman_init \<lparr>g_of = 5, n_of = 23\<rparr> 3
       = Inr \<lparr>constants = \<lparr>g_of = 5, n_of = 23\<rparr>, secret = 3\<rparr>
   \<and> diffie_hellman \<lparr>constants = \<lparr>g_of = 5, n_of = 23\<rparr>, secret = 4\<rparr>
        \<lparr>constants = \<lparr>g_of = 5, n_of = 23\<rparr>, secret = 3\<rparr>
       = ([Alice_public 4, Bob_public 10], Inr 18)"
  using init_5_23 participant_5_23_4 participant_5_23_3
    shared_secrets_agree [OF init_5_23 init_5_23 refl participant_5_23_4 participant_5_23_3]
  by simp

subsection \<open>Mismatched constants\<close>

text \<open>
  C3. For two participants, \<^verbatim>\<open>diffie_hellman\<close> raises the error about different
  \<^verbatim>\<open>DiffieHellmanConstants\<close> if and only if their constants are unequal, and two
  constants are equal exactly when both \<open>g\<close> and \<open>n\<close> are. When they are equal the
  function returns the shared value common to both sides. The witness has the exchange
  of the tests: \<open>g = 5\<close>, \<open>n = 23\<close>, secrets 4 and 3 return 18, and constants
  \<open>(5, 23)\<close> against \<open>(7, 23)\<close> raise the error.
\<close>

theorem exchange_mismatch:
  assumes "snd (DiffieHellmanConstants_init ga na) = Inr ca"
    and "snd (DiffieHellmanConstants_init gb nb) = Inr cb"
    and "DiffieHellman_init ca a = Inr alice"
    and "DiffieHellman_init cb b = Inr bob"
  shows "((\<exists>c d. snd (diffie_hellman alice bob) = Inl (ValueError_constants c d)) \<longleftrightarrow> ca \<noteq> cb)
    \<and> (ca \<noteq> cb \<longrightarrow> diffie_hellman alice bob = ([], Inl (ValueError_constants ca cb)))
    \<and> (ca = cb \<longleftrightarrow> ga = gb \<and> na = nb)
    \<and> (ca = cb \<longrightarrow>
          calculate_public alice = Inr (ga ^ nat a mod na)
        \<and> calculate_public bob = Inr (ga ^ nat b mod na)
        \<and> calculate_shared alice (ga ^ nat b mod na) = Inr ((ga ^ nat b mod na) ^ nat a mod na)
        \<and> calculate_shared bob (ga ^ nat a mod na) = Inr ((ga ^ nat b mod na) ^ nat a mod na)
        \<and> snd (diffie_hellman alice bob) = Inr ((ga ^ nat b mod na) ^ nat a mod na))"
proof -
  from assms(1) have ca: "ca = \<lparr>g_of = ga, n_of = na\<rparr>" using init_Inr by blast
  from assms(2) have cb: "cb = \<lparr>g_of = gb, n_of = nb\<rparr>" using init_Inr by blast
  from assms(3) have alice: "alice = \<lparr>constants = ca, secret = a\<rparr>" "1 \<le> a" "a \<le> n_of ca"
    using participant_Inr by blast+
  from assms(4) have bob: "bob = \<lparr>constants = cb, secret = b\<rparr>" "1 \<le> b" "b \<le> n_of cb"
    using participant_Inr by blast+
  have eq: "ca = cb \<longleftrightarrow> ga = gb \<and> na = nb" using ca cb by simp
  have differ: "diffie_hellman alice bob = ([], Inl (ValueError_constants ca cb))" if "ca \<noteq> cb"
    using that alice bob by (simp add: diffie_hellman_def)
  have same: "calculate_public alice = Inr (ga ^ nat a mod na)
        \<and> calculate_public bob = Inr (ga ^ nat b mod na)
        \<and> calculate_shared alice (ga ^ nat b mod na) = Inr ((ga ^ nat b mod na) ^ nat a mod na)
        \<and> calculate_shared bob (ga ^ nat a mod na) = Inr ((ga ^ nat b mod na) ^ nat a mod na)
        \<and> snd (diffie_hellman alice bob) = Inr ((ga ^ nat b mod na) ^ nat a mod na)" if "ca = cb"
  proof -
    have na: "na \<noteq> 0" using alice ca by auto
    have pa: "calculate_public alice = Inr (ga ^ nat a mod na)"
      using alice ca na by (simp add: calculate_public_def pow_mod_nonneg)
    have pb: "calculate_public bob = Inr (ga ^ nat b mod na)"
      using bob ca that na by (simp add: calculate_public_def pow_mod_nonneg)
    have sa: "calculate_shared alice (ga ^ nat b mod na) = Inr ((ga ^ nat b mod na) ^ nat a mod na)"
      using alice ca na by (simp add: calculate_shared_def pow_mod_nonneg)
    have sb: "calculate_shared bob (ga ^ nat a mod na) = Inr ((ga ^ nat b mod na) ^ nat a mod na)"
      using bob ca that na by (simp add: calculate_shared_def pow_mod_nonneg shared_agree [of ga "nat a"])
    have "constants alice = constants bob" using alice bob that by simp
    then have "snd (diffie_hellman alice bob) = Inr ((ga ^ nat b mod na) ^ nat a mod na)"
      unfolding diffie_hellman_def using pa pb sa sb by simp
    with pa pb sa sb show ?thesis by simp
  qed
  have iff: "(\<exists>c d. snd (diffie_hellman alice bob) = Inl (ValueError_constants c d)) \<longleftrightarrow> ca \<noteq> cb"
  proof (cases "ca = cb")
    case True
    with same show ?thesis by simp
  next
    case False
    with differ show ?thesis by simp
  qed
  from iff differ eq same show ?thesis by blast
qed

theorem exchange_mismatch_witness:
  "snd (DiffieHellmanConstants_init 5 23) = Inr \<lparr>g_of = 5, n_of = 23\<rparr>
   \<and> snd (DiffieHellmanConstants_init 7 23) = Inr \<lparr>g_of = 7, n_of = 23\<rparr>
   \<and> DiffieHellman_init \<lparr>g_of = 5, n_of = 23\<rparr> 4
       = Inr \<lparr>constants = \<lparr>g_of = 5, n_of = 23\<rparr>, secret = 4\<rparr>
   \<and> DiffieHellman_init \<lparr>g_of = 5, n_of = 23\<rparr> 3
       = Inr \<lparr>constants = \<lparr>g_of = 5, n_of = 23\<rparr>, secret = 3\<rparr>
   \<and> DiffieHellman_init \<lparr>g_of = 7, n_of = 23\<rparr> 3
       = Inr \<lparr>constants = \<lparr>g_of = 7, n_of = 23\<rparr>, secret = 3\<rparr>
   \<and> snd (diffie_hellman \<lparr>constants = \<lparr>g_of = 5, n_of = 23\<rparr>, secret = 4\<rparr>
        \<lparr>constants = \<lparr>g_of = 5, n_of = 23\<rparr>, secret = 3\<rparr>) = Inr 18
   \<and> \<lparr>g_of = 5, n_of = 23\<rparr> \<noteq> \<lparr>g_of = 7, n_of = (23::int)\<rparr>
   \<and> diffie_hellman \<lparr>constants = \<lparr>g_of = 5, n_of = 23\<rparr>, secret = 4\<rparr>
        \<lparr>constants = \<lparr>g_of = 7, n_of = 23\<rparr>, secret = 3\<rparr>
       = ([], Inl (ValueError_constants \<lparr>g_of = 5, n_of = 23\<rparr> \<lparr>g_of = 7, n_of = 23\<rparr>))"
  using init_5_23 init_7_23 participant_5_23_4 participant_5_23_3 participant_7_23_3
    exchange_mismatch [OF init_5_23 init_5_23 participant_5_23_4 participant_5_23_3]
    exchange_mismatch [OF init_5_23 init_7_23 participant_5_23_4 participant_7_23_3]
  by simp

subsection \<open>The scan for a repeated residue\<close>

lemma first_seen_empty: "first_seen g n Map.empty 0"
  by (simp add: first_seen_def)

lemma first_seen_step:
  assumes "first_seen g n m i" and "0 \<le> i" and "m (g ^ nat i mod n) = None"
  shows "first_seen g n (m(g ^ nat i mod n \<mapsto> i)) (i + 1)"
proof -
  let ?r = "g ^ nat i mod n"
  from assms(1) have old:
    "\<And>r q. m r = Some q \<Longrightarrow>
       0 \<le> q \<and> q < i \<and> g ^ nat q mod n = r \<and> (\<forall>k. 0 \<le> k \<and> k < q \<longrightarrow> g ^ nat k mod n \<noteq> r)"
    and seen: "\<And>k. 0 \<le> k \<Longrightarrow> k < i \<Longrightarrow> m (g ^ nat k mod n) \<noteq> None"
    unfolding first_seen_def by blast+
  have new: "0 \<le> q \<and> q < i + 1 \<and> g ^ nat q mod n = r
      \<and> (\<forall>k. 0 \<le> k \<and> k < q \<longrightarrow> g ^ nat k mod n \<noteq> r)"
    if "(m(?r \<mapsto> i)) r = Some q" for r q
  proof (cases "r = ?r")
    case True
    with that have "q = i" by simp
    moreover have "g ^ nat k mod n \<noteq> ?r" if "0 \<le> k" "k < i" for k
      using seen [OF that] assms(3) by auto
    ultimately show ?thesis using True assms(2) by simp
  next
    case False
    with that have "m r = Some q" by simp
    from old [OF this] show ?thesis by simp
  qed
  have seen': "(m(?r \<mapsto> i)) (g ^ nat k mod n) \<noteq> None" if "0 \<le> k" "k < i + 1" for k
  proof (cases "k = i")
    case True
    then show ?thesis by simp
  next
    case False
    with that have "k < i" by simp
    from seen [OF that(1) this] show ?thesis by simp
  qed
  from new seen' show ?thesis unfolding first_seen_def by blast
qed

lemma root_loop_shape:
  "root_loop g n m xs = (True, None) \<or> (\<exists>e. root_loop g n m xs = (False, Some e))"
  by (induction xs arbitrary: m) (auto simp: Let_def split: option.splits)

lemma root_loop_witness:
  "first_seen g n m i \<Longrightarrow> 0 \<le> i \<Longrightarrow>
   root_loop g n m [i..j] = (b, Some (PrimitiveRootError c r p)) \<Longrightarrow>
     0 \<le> p \<and> p < c \<and> i \<le> c \<and> c \<le> j \<and> r = g ^ nat c mod n \<and> r = g ^ nat p mod n
     \<and> (\<forall>k. 0 \<le> k \<and> k < p \<longrightarrow> g ^ nat k mod n \<noteq> r)"
proof (induction i j arbitrary: m rule: upto.induct)
  case (1 i j)
  show ?case
  proof (cases "i \<le> j")
    case False
    with "1.prems" show ?thesis by (simp add: upto.simps)
  next
    case True
    then have unfold: "[i..j] = i # [i + 1..j]" by (simp add: upto.simps)
    show ?thesis
    proof (cases "m (g ^ nat i mod n)")
      case None
      with "1.prems" unfold
      have run: "root_loop g n (m(g ^ nat i mod n \<mapsto> i)) [i + 1..j] = (b, Some (PrimitiveRootError c r p))"
        by simp
      have "first_seen g n (m(g ^ nat i mod n \<mapsto> i)) (i + 1)"
        using "1.prems" None by (simp add: first_seen_step)
      moreover have "0 \<le> i + 1" using "1.prems"(2) by simp
      ultimately have res: "0 \<le> p \<and> p < c \<and> i + 1 \<le> c \<and> c \<le> j \<and> r = g ^ nat c mod n
          \<and> r = g ^ nat p mod n \<and> (\<forall>k. 0 \<le> k \<and> k < p \<longrightarrow> g ^ nat k mod n \<noteq> r)"
        using run by (rule "1.IH" [OF True])
      then have "i \<le> c" by simp
      with res show ?thesis by blast
    next
      case (Some q)
      with "1.prems"(3) unfold have "c = i" "r = g ^ nat i mod n" "p = q" by auto
      moreover from "1.prems"(1) Some
      have "0 \<le> q \<and> q < i \<and> g ^ nat q mod n = g ^ nat i mod n
            \<and> (\<forall>k. 0 \<le> k \<and> k < q \<longrightarrow> g ^ nat k mod n \<noteq> g ^ nat i mod n)"
        unfolding first_seen_def by blast
      ultimately show ?thesis using True by simp
    qed
  qed
qed

lemma root_loop_distinct:
  "first_seen g n m i \<Longrightarrow> 0 \<le> i \<Longrightarrow>
   fst (root_loop g n m [i..j]) \<longleftrightarrow>
     (\<forall>x y. i \<le> x \<and> x \<le> j \<and> 0 \<le> y \<and> y < x \<longrightarrow> g ^ nat x mod n \<noteq> g ^ nat y mod n)"
proof (induction i j arbitrary: m rule: upto.induct)
  case (1 i j)
  show ?case
  proof (cases "i \<le> j")
    case False
    then show ?thesis by (simp add: upto.simps)
  next
    case True
    then have unfold: "[i..j] = i # [i + 1..j]" by (simp add: upto.simps)
    show ?thesis
    proof (cases "m (g ^ nat i mod n)")
      case None
      have fresh: "g ^ nat i mod n \<noteq> g ^ nat y mod n" if "0 \<le> y" "y < i" for y
        using "1.prems"(1) None that unfolding first_seen_def by metis
      have "first_seen g n (m(g ^ nat i mod n \<mapsto> i)) (i + 1)"
        using "1.prems" None by (simp add: first_seen_step)
      moreover have "0 \<le> i + 1" using "1.prems"(2) by simp
      ultimately have "fst (root_loop g n (m(g ^ nat i mod n \<mapsto> i)) [i + 1..j]) \<longleftrightarrow>
        (\<forall>x y. i + 1 \<le> x \<and> x \<le> j \<and> 0 \<le> y \<and> y < x \<longrightarrow> g ^ nat x mod n \<noteq> g ^ nat y mod n)"
        by (rule "1.IH" [OF True])
      moreover have "(\<forall>x y. i + 1 \<le> x \<and> x \<le> j \<and> 0 \<le> y \<and> y < x \<longrightarrow> g ^ nat x mod n \<noteq> g ^ nat y mod n)
        \<longleftrightarrow> (\<forall>x y. i \<le> x \<and> x \<le> j \<and> 0 \<le> y \<and> y < x \<longrightarrow> g ^ nat x mod n \<noteq> g ^ nat y mod n)"
      proof (intro iffI allI impI)
        fix x y
        assume h: "\<forall>x y. i + 1 \<le> x \<and> x \<le> j \<and> 0 \<le> y \<and> y < x \<longrightarrow> g ^ nat x mod n \<noteq> g ^ nat y mod n"
          and xy: "i \<le> x \<and> x \<le> j \<and> 0 \<le> y \<and> y < x"
        show "g ^ nat x mod n \<noteq> g ^ nat y mod n"
        proof (cases "x = i")
          case True
          with xy fresh show ?thesis by simp
        next
          case False
          with xy have "i + 1 \<le> x" by simp
          with h xy show ?thesis by blast
        qed
      next
        fix x y
        assume h: "\<forall>x y. i \<le> x \<and> x \<le> j \<and> 0 \<le> y \<and> y < x \<longrightarrow> g ^ nat x mod n \<noteq> g ^ nat y mod n"
          and xy: "i + 1 \<le> x \<and> x \<le> j \<and> 0 \<le> y \<and> y < x"
        then have "i \<le> x \<and> x \<le> j \<and> 0 \<le> y \<and> y < x" by simp
        with h show "g ^ nat x mod n \<noteq> g ^ nat y mod n" by blast
      qed
      ultimately show ?thesis using unfold None by simp
    next
      case (Some q)
      with "1.prems"(1)
      have q: "0 \<le> q" "q < i" "g ^ nat q mod n = g ^ nat i mod n"
        unfolding first_seen_def by blast+
      have "\<not> fst (root_loop g n m [i..j])" using unfold Some by simp
      moreover have "\<not> (\<forall>x y. i \<le> x \<and> x \<le> j \<and> 0 \<le> y \<and> y < x \<longrightarrow> g ^ nat x mod n \<noteq> g ^ nat y mod n)"
        using q True by (metis order_refl)
      ultimately show ?thesis by simp
    qed
  qed
qed

lemma root_table:
  "list_all (\<lambda>(g, n, root). fst (is_primitive_root_modulo_n g n) = root) ROOT_PARAMS"
  by code_simp

lemma root_modulo_n_distinct:
  "fst (is_primitive_root_modulo_n g n) \<longleftrightarrow>
     (\<forall>x y. 0 \<le> x \<and> x \<le> n - 2 \<and> 0 \<le> y \<and> y < x \<longrightarrow> g ^ nat x mod n \<noteq> g ^ nat y mod n)"
  unfolding is_primitive_root_modulo_n_def
  using root_loop_distinct [OF first_seen_empty, of g n "n - 2"] by simp

lemma root_modulo_n_shape:
  "fst (is_primitive_root_modulo_n g n) \<longleftrightarrow> is_primitive_root_modulo_n g n = (True, None)"
  unfolding is_primitive_root_modulo_n_def
  using root_loop_shape [of g n Map.empty "[0..n - 2]"] by auto

lemma root_modulo_n_pairwise:
  "is_primitive_root_modulo_n g n = (True, None) \<longleftrightarrow>
     (\<forall>x \<in> {0..n - 2}. \<forall>y \<in> {0..n - 2}. x \<noteq> y \<longrightarrow> g ^ nat x mod n \<noteq> g ^ nat y mod n)"
proof -
  have "(\<forall>x y. 0 \<le> x \<and> x \<le> n - 2 \<and> 0 \<le> y \<and> y < x \<longrightarrow> g ^ nat x mod n \<noteq> g ^ nat y mod n)
    \<longleftrightarrow> (\<forall>x \<in> {0..n - 2}. \<forall>y \<in> {0..n - 2}. x \<noteq> y \<longrightarrow> g ^ nat x mod n \<noteq> g ^ nat y mod n)"
    (is "?L \<longleftrightarrow> ?R")
  proof
    assume l: ?L
    show ?R
    proof (intro ballI impI)
      fix x y assume xy: "x \<in> {0..n - 2}" "y \<in> {0..n - 2}" "x \<noteq> y"
      show "g ^ nat x mod n \<noteq> g ^ nat y mod n"
      proof (cases "y < x")
        case True
        with l xy show ?thesis by simp
      next
        case False
        with xy have "x < y" by simp
        with l xy have "g ^ nat y mod n \<noteq> g ^ nat x mod n" by simp
        then show ?thesis by simp
      qed
    qed
  next
    assume r: ?R
    show ?L
    proof (intro allI impI)
      fix x y assume xy: "0 \<le> x \<and> x \<le> n - 2 \<and> 0 \<le> y \<and> y < x"
      then have "x \<in> {0..n - 2}" "y \<in> {0..n - 2}" "x \<noteq> y" by simp_all
      with r show "g ^ nat x mod n \<noteq> g ^ nat y mod n" by blast
    qed
  qed
  then show ?thesis
    using root_modulo_n_distinct [of g n] root_modulo_n_shape [of g n] by simp
qed

lemma root_2_5: "is_primitive_root_modulo_n 2 5 = (True, None)"
  by code_simp

lemma root_0_5: "is_primitive_root_modulo_n 0 5 = (False, Some (PrimitiveRootError 2 0 1))"
  by code_simp

text \<open>
  C6. For every \<open>n \<ge> 2\<close> and every \<open>g\<close>, \<^verbatim>\<open>is_primitive_root_modulo_n(g, n)\<close> returns
  \<^verbatim>\<open>(True, None)\<close> if and only if the residues \<open>g ^ i mod n\<close> for \<open>i\<close> from 0 to
  \<open>n - 2\<close> are pairwise distinct. On every pair \<open>(g, n)\<close> of the tests' table for the
  primes 5, 7, 11, 13, 17, 19, 23, 29 and 31 the answer is the expected one.
\<close>

theorem root_iff_distinct:
  "(2 \<le> n \<longrightarrow>
     (is_primitive_root_modulo_n g n = (True, None) \<longleftrightarrow>
        (\<forall>x \<in> {0..n - 2}. \<forall>y \<in> {0..n - 2}. x \<noteq> y \<longrightarrow> g ^ nat x mod n \<noteq> g ^ nat y mod n)))
   \<and> list_all (\<lambda>(g, n, root). is_primitive_root_modulo_n g n = (True, None) \<longleftrightarrow> root) ROOT_PARAMS"
proof -
  have "(\<lambda>(g, n, root). is_primitive_root_modulo_n g n = (True, None) \<longleftrightarrow> root)
      = (\<lambda>(g, n, root). fst (is_primitive_root_modulo_n g n) = root)"
    by (simp add: fun_eq_iff root_modulo_n_shape)
  with root_table root_modulo_n_pairwise [of g n] show ?thesis by simp
qed

theorem root_iff_distinct_witness:
  "(2::int) \<le> 5 \<and> is_primitive_root_modulo_n 2 5 = (True, None)
   \<and> map (\<lambda>i. (2::int) ^ nat i mod 5) [0, 1, 2, 3] = [1, 2, 4, 3]
   \<and> is_primitive_root_modulo_n 0 5 \<noteq> (True, None)
   \<and> (0::int) ^ nat 1 mod 5 = 0 ^ nat 2 mod 5"
proof -
  have "\<not> (\<forall>x \<in> {0..5 - 2}. \<forall>y \<in> {0..5 - 2}. x \<noteq> y
            \<longrightarrow> (0::int) ^ nat x mod 5 \<noteq> 0 ^ nat y mod 5)"
  proof
    assume "\<forall>x \<in> {0..5 - 2}. \<forall>y \<in> {0..5 - 2}. x \<noteq> y
              \<longrightarrow> (0::int) ^ nat x mod 5 \<noteq> 0 ^ nat y mod 5"
    then have "\<forall>y \<in> {0..5 - 2}. 1 \<noteq> y \<longrightarrow> (0::int) ^ nat 1 mod 5 \<noteq> 0 ^ nat y mod 5"
      by (rule bspec) simp
    then have "(1::int) \<noteq> 2 \<longrightarrow> (0::int) ^ nat 1 mod 5 \<noteq> 0 ^ nat 2 mod 5"
      by (rule bspec) simp
    then show False by simp
  qed
  then have "is_primitive_root_modulo_n 0 5 \<noteq> (True, None)"
    using root_iff_distinct [of 5 0] by simp
  moreover have "\<forall>x \<in> {0..5 - 2}. \<forall>y \<in> {0..5 - 2}. x \<noteq> y
            \<longrightarrow> (2::int) ^ nat x mod 5 \<noteq> 2 ^ nat y mod 5"
    using root_iff_distinct [of 5 2] root_2_5 by simp
  ultimately show ?thesis using root_2_5 by simp
qed

text \<open>
  C7. Whenever \<^verbatim>\<open>is_primitive_root_modulo_n(g, n)\<close> returns a \<^verbatim>\<open>PrimitiveRootError\<close>,
  its answer is \<^verbatim>\<open>False\<close> and the error is a valid witness: \<open>previous < current\<close>,
  \<open>remainder = g ^ current mod n = g ^ previous mod n\<close>, and no exponent below
  \<open>previous\<close> produces that residue.
\<close>

theorem root_error_valid:
  assumes "is_primitive_root_modulo_n g n = (b, Some e)"
  shows "\<not> b \<and> 0 \<le> previous e \<and> previous e < current e \<and> current e \<le> n - 2
    \<and> remainder e = g ^ nat (current e) mod n
    \<and> remainder e = g ^ nat (previous e) mod n
    \<and> (\<forall>k. 0 \<le> k \<and> k < previous e \<longrightarrow> g ^ nat k mod n \<noteq> remainder e)"
proof -
  obtain c r p where e: "e = PrimitiveRootError c r p" by (cases e)
  from assms have run: "root_loop g n Map.empty [0..n - 2] = (b, Some (PrimitiveRootError c r p))"
    by (simp add: is_primitive_root_modulo_n_def e)
  have "0 \<le> p \<and> p < c \<and> 0 \<le> c \<and> c \<le> n - 2 \<and> r = g ^ nat c mod n \<and> r = g ^ nat p mod n
     \<and> (\<forall>k. 0 \<le> k \<and> k < p \<longrightarrow> g ^ nat k mod n \<noteq> r)"
    using first_seen_empty _ run by (rule root_loop_witness) simp
  moreover have "\<not> b"
    using root_loop_shape [of g n Map.empty "[0..n - 2]"] run by auto
  ultimately show ?thesis unfolding e PrimitiveRootError.sel by blast
qed

theorem root_error_valid_witness:
  "is_primitive_root_modulo_n 0 5 = (False, Some (PrimitiveRootError 2 0 1))
   \<and> (1::int) < 2 \<and> (0::int) = 0 ^ 2 mod 5 \<and> (0::int) = 0 ^ 1 mod 5 \<and> (0::int) ^ 0 mod 5 \<noteq> 0"
  using root_0_5 root_error_valid [OF root_0_5]
  by simp

subsection \<open>Trial division\<close>

lemma small_cofactor:
  fixes n d i :: int
  assumes "d dvd n" "2 \<le> d" "d < n" "n < i ^ 2" "0 \<le> i"
  shows "\<exists>e. 2 \<le> e \<and> e < i \<and> e dvd n"
proof (cases "d < i")
  case True
  with assms show ?thesis by blast
next
  case False
  from assms(1) obtain q where q: "n = d * q" by (auto simp: dvd_def)
  have "0 < d * q" "0 < d" using q assms(2,3) by simp_all
  then have "0 < q" by (rule zero_less_mult_pos)
  have "q \<noteq> 1" using q assms(3) by auto
  with \<open>0 < q\<close> have "2 \<le> q" by simp
  have "q < i"
  proof (rule ccontr)
    assume "\<not> q < i"
    then have "i \<le> q" by simp
    moreover from False have "i \<le> d" by simp
    ultimately have "i * i \<le> d * q" using assms(5) by (intro mult_mono) simp_all
    with q assms(4) show False by (simp add: power2_eq_square)
  qed
  moreover have "q dvd n" using q by simp
  ultimately show ?thesis using \<open>2 \<le> q\<close> by blast
qed


lemma no_divisor_belowD: "no_divisor_below n i \<Longrightarrow> 2 \<le> d \<Longrightarrow> d < i \<Longrightarrow> \<not> d dvd n"
  by (simp add: no_divisor_below_def)

lemma no_divisor_below_even:
  assumes "no_divisor_below n i" "2 < i" "even d"
  shows "\<not> d dvd n"
proof
  assume "d dvd n"
  with assms(3) have "2 dvd n" by (rule dvd_trans)
  with assms(1,2) show False by (simp add: no_divisor_below_def)
qed

lemma no_divisor_below_three:
  assumes "no_divisor_below n i" "3 < i" "3 dvd d"
  shows "\<not> d dvd n"
proof
  assume "d dvd n"
  with assms(3) have "3 dvd n" by (rule dvd_trans)
  with assms(1,2) show False by (simp add: no_divisor_below_def)
qed

lemma wheel_step:
  assumes inv: "no_divisor_below n i" and i: "5 \<le> i" "i mod 6 = 5"
    and "\<not> i dvd n" "\<not> (i + 2) dvd n"
  shows "no_divisor_below n (i + 6)"
  unfolding no_divisor_below_def
proof (intro allI impI)
  fix d assume d: "2 \<le> d \<and> d < i + 6"
  consider "d < i" | "d = i" | "d = i + 1" | "d = i + 2" | "d = i + 3" | "d = i + 4" | "d = i + 5"
    using d by linarith
  then show "\<not> d dvd n"
  proof cases
    case 1
    with inv d show ?thesis by (simp add: no_divisor_below_def)
  next
    case 2
    with assms show ?thesis by simp
  next
    case 3
    with i have "even d" by presburger
    with inv i show ?thesis by (intro no_divisor_below_even [of n i]) simp_all
  next
    case 4
    with assms show ?thesis by simp
  next
    case 5
    with i have "even d" by presburger
    with inv i show ?thesis by (intro no_divisor_below_even [of n i]) simp_all
  next
    case 6
    with i have "3 dvd d" by presburger
    with inv i show ?thesis by (intro no_divisor_below_three [of n i]) simp_all
  next
    case 7
    with i have "even d" by presburger
    with inv i show ?thesis by (intro no_divisor_below_even [of n i]) simp_all
  qed
qed

lemma second_candidate_square:
  assumes inv: "no_divisor_below n i" and i: "5 \<le> i" "i mod 6 = 5"
    and sq: "i ^ 2 \<le> n" and ni: "\<not> i dvd n" and d: "(i + 2) dvd n"
  shows "(i + 2) ^ 2 \<le> n"
proof (rule ccontr)
  assume "\<not> (i + 2) ^ 2 \<le> n"
  then have lt: "n < (i + 2) ^ 2" by simp
  have "i + 2 < i ^ 2"
  proof -
    have "i * 5 \<le> i * i" using i(1) by (intro mult_left_mono) simp_all
    then show ?thesis using i(1) unfolding power2_eq_square by linarith
  qed
  with sq have "i + 2 < n" by simp
  with d lt i(1) obtain e where e: "2 \<le> e" "e < i + 2" "e dvd n"
    using small_cofactor [of "i + 2" n "i + 2"] by auto
  consider "e < i" | "e = i" | "e = i + 1" using e by linarith
  then show False
  proof cases
    case 1
    with inv e show False by (simp add: no_divisor_below_def)
  next
    case 2
    with ni e show False by simp
  next
    case 3
    with i have "even e" by presburger
    with inv i have "\<not> e dvd n" by (intro no_divisor_below_even [of n i]) simp_all
    with e show False by simp
  qed
qed

lemma is_prime_loop_correct:
  "5 \<le> i \<Longrightarrow> i mod 6 = 5 \<Longrightarrow> 3 < n \<Longrightarrow> no_divisor_below n i \<Longrightarrow>
     (is_prime_loop n i = (True, None) \<and> no_divisor_below n n)
   \<or> (\<exists>d. is_prime_loop n i = (False, Some (PrimeError d)) \<and> i \<le> d \<and> d ^ 2 \<le> n \<and> d dvd n
          \<and> no_divisor_below n d \<and> (d mod 6 = 5 \<or> d mod 6 = 1))"
proof (induction n i rule: is_prime_loop.induct)
  case (1 n i)
  note i = "1.prems"(1,2) and n = "1.prems"(3) and inv = "1.prems"(4)
  show ?case
  proof (cases "i ^ 2 \<le> n")
    case False
    then have run: "is_prime_loop n i = (True, None)" by (simp add: is_prime_loop.simps)
    have "no_divisor_below n n"
      unfolding no_divisor_below_def
    proof (intro allI impI notI)
      fix d assume "2 \<le> d \<and> d < n" and "d dvd n"
      with False i obtain e where "2 \<le> e" "e < i" "e dvd n"
        using small_cofactor [of d n i] by auto
      with inv show False by (simp add: no_divisor_below_def)
    qed
    with run show ?thesis by simp
  next
    case sq: True
    show ?thesis
    proof (cases "n mod i = 0")
      case True
      with sq have "is_prime_loop n i = (False, Some (PrimeError i))"
        by (simp add: is_prime_loop.simps)
      moreover from True have "i dvd n" by (simp add: dvd_eq_mod_eq_0)
      ultimately show ?thesis using sq inv i by simp
    next
      case ni: False
      then have ndi: "\<not> i dvd n" by (simp add: dvd_eq_mod_eq_0)
      show ?thesis
      proof (cases "n mod (i + 2) = 0")
        case True
        with sq ni have "is_prime_loop n i = (False, Some (PrimeError (i + 2)))"
          by (simp add: is_prime_loop.simps)
        moreover from True have d: "(i + 2) dvd n" by (simp add: dvd_eq_mod_eq_0)
        moreover have "(i + 2) ^ 2 \<le> n"
          using inv i sq ndi d by (rule second_candidate_square)
        moreover have "no_divisor_below n (i + 2)"
          unfolding no_divisor_below_def
        proof (intro allI impI)
          fix e assume e: "2 \<le> e \<and> e < i + 2"
          consider "e < i" | "e = i" | "e = i + 1" using e by linarith
          then show "\<not> e dvd n"
          proof cases
            case 1
            with inv e show ?thesis by (simp add: no_divisor_below_def)
          next
            case 2
            with ndi show ?thesis by simp
          next
            case 3
            with i have "even e" by presburger
            with inv i show ?thesis by (intro no_divisor_below_even [of n i]) simp_all
          qed
        qed
        moreover have "(i + 2) mod 6 = 1" using i by presburger
        ultimately show ?thesis by simp
      next
        case ni2: False
        then have ndi2: "\<not> (i + 2) dvd n" by (simp add: dvd_eq_mod_eq_0)
        from sq ni ni2 have run: "is_prime_loop n i = is_prime_loop n (i + 6)"
          by (subst is_prime_loop.simps) simp
        have inv': "no_divisor_below n (i + 6)"
          using inv i ndi ndi2 by (rule wheel_step)
        have "5 \<le> i + 6" "(i + 6) mod 6 = 5" using i by presburger+
        from "1.IH" [OF sq ni ni2 this n inv']
        show ?thesis unfolding run by force
      qed
    qed
  qed
qed

lemma no_divisor_below_5:
  assumes "n mod 2 \<noteq> 0" "n mod 3 \<noteq> 0"
  shows "no_divisor_below n 5"
  unfolding no_divisor_below_def
proof (intro allI impI)
  fix d :: int assume d: "2 \<le> d \<and> d < 5"
  then consider "d = 2" | "d = 3" | "d = 4" by linarith
  then show "\<not> d dvd n"
  proof cases
    case 1
    with assms show ?thesis by (simp add: dvd_eq_mod_eq_0)
  next
    case 2
    with assms show ?thesis by (simp add: dvd_eq_mod_eq_0)
  next
    case 3
    show ?thesis
    proof
      assume "d dvd n"
      moreover have "2 dvd d" using 3 by simp
      ultimately have "2 dvd n" using dvd_trans by blast
      with assms show False by (simp add: dvd_eq_mod_eq_0)
    qed
  qed
qed

lemma is_prime_wheel_case:
  assumes "3 < n" "n mod 2 \<noteq> 0" "n mod 3 \<noteq> 0"
  shows "(is_prime n = (True, None) \<and> no_divisor_below n n)
   \<or> (\<exists>d. is_prime n = (False, Some (PrimeError d)) \<and> 5 \<le> d \<and> d ^ 2 \<le> n \<and> d dvd n
          \<and> no_divisor_below n d \<and> (d mod 6 = 5 \<or> d mod 6 = 1))"
proof -
  have "is_prime n = is_prime_loop n 5" using assms by (simp add: is_prime_def)
  moreover have "no_divisor_below n 5" using assms(2,3) by (rule no_divisor_below_5)
  ultimately show ?thesis
    using is_prime_loop_correct [of 5 n] assms(1) by simp
qed

lemma is_prime_cases:
  assumes "3 < n"
  shows "(is_prime n = (True, None) \<and> no_divisor_below n n)
   \<or> (\<exists>d. is_prime n = (False, Some (PrimeError d)) \<and> 2 \<le> d \<and> d ^ 2 \<le> n \<and> d dvd n
          \<and> no_divisor_below n d)"
proof (cases "n mod 2 = 0")
  case True
  with assms have "is_prime n = (False, Some (PrimeError 2))" by (simp add: is_prime_def)
  moreover have "2 dvd n" using True by presburger
  moreover have "no_divisor_below n 2" by (auto simp: no_divisor_below_def)
  ultimately show ?thesis using assms by simp
next
  case odd: False
  show ?thesis
  proof (cases "n mod 3 = 0")
    case True
    with assms odd have "is_prime n = (False, Some (PrimeError 3))" by (simp add: is_prime_def)
    moreover have "3 dvd n" using True by presburger
    moreover have "no_divisor_below n 3"
      unfolding no_divisor_below_def
    proof (intro allI impI)
      fix d :: int assume "2 \<le> d \<and> d < 3"
      then have "d = 2" by simp
      with odd show "\<not> d dvd n" by (simp add: dvd_eq_mod_eq_0)
    qed
    moreover have "9 \<le> n" using assms odd True by presburger
    ultimately show ?thesis by simp
  next
    case False
    from is_prime_wheel_case [OF assms odd False] show ?thesis by force
  qed
qed

lemma square_le_less:
  fixes d n :: int
  assumes "2 \<le> d" "d ^ 2 \<le> n"
  shows "d < n"
proof -
  have "d * 2 \<le> d * d" using assms(1) by (intro mult_left_mono) simp_all
  with assms show ?thesis unfolding power2_eq_square by linarith
qed

lemma is_prime_iff_prime_spec: "fst (is_prime n) \<longleftrightarrow> prime_spec n"
proof (cases "3 < n")
  case False
  then consider "n \<le> 1" | "n = 2" | "n = 3" by linarith
  then show ?thesis
  proof cases
    case 1
    then show ?thesis by (simp add: is_prime_def prime_spec_def)
  next
    case 2
    then show ?thesis by (auto simp: is_prime_def prime_spec_def)
  next
    case 3
    have "\<not> d dvd (3::int)" if "1 < d" "d < 3" for d :: int
    proof -
      from that have "d = 2" by simp
      then show ?thesis by simp
    qed
    with 3 show ?thesis by (simp add: is_prime_def prime_spec_def)
  qed
next
  case True
  from is_prime_cases [OF True] show ?thesis
  proof (elim disjE conjE exE)
    assume "is_prime n = (True, None)" "no_divisor_below n n"
    with True show ?thesis by (simp add: prime_spec_def no_divisor_below_def)
  next
    fix d assume d: "is_prime n = (False, Some (PrimeError d))" "2 \<le> d" "d ^ 2 \<le> n" "d dvd n"
    then have "d < n" using square_le_less by blast
    with d have "\<not> prime_spec n" unfolding prime_spec_def by force
    with d show ?thesis by simp
  qed
qed

lemma is_prime_divisor:
  assumes "snd (is_prime n) = Some e"
  shows "3 < n \<and> \<not> fst (is_prime n) \<and> 2 \<le> divisor e \<and> divisor e < n \<and> divisor e dvd n
    \<and> no_divisor_below n (divisor e)"
proof -
  from assms have n: "3 < n" by (auto simp: is_prime_def split: if_splits)
  from is_prime_cases [OF n] assms
  obtain d where d: "is_prime n = (False, Some (PrimeError d))" "2 \<le> d" "d ^ 2 \<le> n" "d dvd n"
      "no_divisor_below n d" by auto
  then have "d < n" using square_le_less by blast
  with d assms n show ?thesis by auto
qed

lemma find_filter_conj: "find P (filter Q xs) = find (\<lambda>x. Q x \<and> P x) xs"
  by (induction xs) simp_all

lemma find_upto_least:
  "a \<le> w \<Longrightarrow> w \<le> b \<Longrightarrow> P w \<Longrightarrow> (\<forall>d. a \<le> d \<and> d < w \<longrightarrow> \<not> P d) \<Longrightarrow> find P [a..b] = Some w"
proof (induction a b rule: upto.induct)
  case (1 a b)
  then have unfold: "[a..b] = a # [a + 1..b]" by (simp add: upto.simps)
  show ?case
  proof (cases "a = w")
    case True
    with "1.prems" unfold show ?thesis by simp
  next
    case False
    with "1.prems" have "\<not> P a" "a + 1 \<le> w" "a \<le> b" by simp_all
    moreover from "1.prems" have "\<forall>d. a + 1 \<le> d \<and> d < w \<longrightarrow> \<not> P d" by simp
    ultimately show ?thesis using "1.IH" "1.prems"(2,3) unfold by simp
  qed
qed

lemma is_prime_trial_division:
  assumes "3 < n" "n mod 2 \<noteq> 0" "n mod 3 \<noteq> 0"
  shows "is_prime n = trial_division_spec n"
proof -
  consider (prime) "is_prime n = (True, None)" "no_divisor_below n n"
    | (composite) d where "is_prime n = (False, Some (PrimeError d))" "5 \<le> d" "d ^ 2 \<le> n"
        "d dvd n" "d mod 6 = 5 \<or> d mod 6 = 1" "no_divisor_below n d"
    using is_prime_wheel_case [OF assms] by blast
  then show ?thesis
  proof cases
  case prime
  then have run: "is_prime n = (True, None)" and none: "no_divisor_below n n" by simp_all
  have "\<not> n mod d = 0" if "d \<in> set (wheel_spec n)" for d
  proof -
    from that have "5 \<le> d" "d ^ 2 \<le> n" by (simp_all add: wheel_spec_def)
    then have "2 \<le> d" "d < n" using square_le_less [of d n] by simp_all
    with none show ?thesis by (simp add: no_divisor_below_def dvd_eq_mod_eq_0)
  qed
  then have "find (\<lambda>d. n mod d = 0) (wheel_spec n) = None"
    by (simp add: find_None_iff)
  with run show ?thesis by (simp add: trial_division_spec_def)
next
  case composite
  then have run: "is_prime n = (False, Some (PrimeError d))"
    and d: "5 \<le> d" "d ^ 2 \<le> n" "d dvd n" "d mod 6 = 5 \<or> d mod 6 = 1"
    and least: "no_divisor_below n d" by simp_all
  from d have "d < n" using square_le_less [of d n] by simp
  let ?P = "\<lambda>x. (x ^ 2 \<le> n \<and> (x mod 6 = 1 \<or> x mod 6 = 5)) \<and> n mod x = 0"
  have "?P d" using d by (auto simp: dvd_eq_mod_eq_0)
  moreover have "\<forall>x. 5 \<le> x \<and> x < d \<longrightarrow> \<not> ?P x"
    using least by (auto simp: no_divisor_below_def dvd_eq_mod_eq_0)
  ultimately have "find ?P [5..n] = Some d"
    using find_upto_least [of 5 d n ?P] d(1) \<open>d < n\<close> by simp
  then have "find (\<lambda>d. n mod d = 0) (wheel_spec n) = Some d"
    by (simp add: wheel_spec_def find_filter_conj)
  with run show ?thesis by (simp add: trial_division_spec_def)
qed
qed

lemma prime_table: "list_all test_is_prime PRIME_PARAMS"
  by code_simp

lemma trial_division_spec_25: "trial_division_spec 25 = (False, Some (PrimeError 5))"
  by code_simp

lemma trial_division_spec_91: "trial_division_spec 91 = (False, Some (PrimeError 7))"
  by code_simp

lemma trial_division_spec_97: "trial_division_spec 97 = (True, None)"
  by code_simp

text \<open>
  C5. For every integer \<open>n\<close> from 0 to 100, \<^verbatim>\<open>is_prime(n)\<close> answers \<^verbatim>\<open>True\<close> exactly
  when \<open>n\<close> is in the tests' table of primes, and every \<^verbatim>\<open>PrimeError\<close> it returns has
  a divisor that divides \<open>n\<close>. The cases are those of the code, in its order: for even
  \<open>n > 3\<close> the witness is 2; for odd \<open>n > 3\<close> divisible by 3 it is 3; otherwise the
  result is that of trial division over the \<open>6k \<plusminus> 1\<close> wheel up to the square root
  of \<open>n\<close>, whose first divisor is the witness. The last four parts hold for every
  integer, and the answer is \<^verbatim>\<open>True\<close> exactly for the primes.
\<close>

theorem is_prime_reference:
  "(0 \<le> n \<and> n \<le> 100 \<longrightarrow> (fst (is_prime n) \<longleftrightarrow> n \<in> set PRIMES))
   \<and> list_all test_is_prime PRIME_PARAMS
   \<and> (fst (is_prime n) \<longleftrightarrow> prime_spec n)
   \<and> (\<forall>e. snd (is_prime n) = Some e \<longrightarrow> \<not> fst (is_prime n) \<and> n mod divisor e = 0)
   \<and> (3 < n \<and> n mod 2 = 0 \<longrightarrow> is_prime n = (False, Some (PrimeError 2)))
   \<and> (3 < n \<and> n mod 2 \<noteq> 0 \<and> n mod 3 = 0 \<longrightarrow> is_prime n = (False, Some (PrimeError 3)))
   \<and> (3 < n \<and> n mod 2 \<noteq> 0 \<and> n mod 3 \<noteq> 0 \<longrightarrow> is_prime n = trial_division_spec n)"
proof -
  have table: "fst (is_prime n) \<longleftrightarrow> n \<in> set PRIMES" if "0 \<le> n \<and> n \<le> 100"
  proof -
    from that have "(n, n \<in> set PRIMES) \<in> set PRIME_PARAMS" by (simp add: PRIME_PARAMS_def)
    with prime_table have "test_is_prime (n, n \<in> set PRIMES)" by (simp add: list_all_iff)
    then show ?thesis by (simp add: test_is_prime_def split: prod.splits)
  qed
  have divides: "\<not> fst (is_prime n) \<and> n mod divisor e = 0" if "snd (is_prime n) = Some e" for e
    using is_prime_divisor [OF that] by (simp add: dvd_eq_mod_eq_0)
  have even: "is_prime n = (False, Some (PrimeError 2))" if "3 < n \<and> n mod 2 = 0"
    using that by (simp add: is_prime_def)
  have three: "is_prime n = (False, Some (PrimeError 3))" if "3 < n \<and> n mod 2 \<noteq> 0 \<and> n mod 3 = 0"
    using that by (simp add: is_prime_def)
  have wheel: "is_prime n = trial_division_spec n" if "3 < n \<and> n mod 2 \<noteq> 0 \<and> n mod 3 \<noteq> 0"
    using that by (simp add: is_prime_trial_division)
  from table divides even three wheel prime_table is_prime_iff_prime_spec [of n]
  show ?thesis by blast
qed

theorem is_prime_reference_witness:
  "(0::int) \<le> 4 \<and> (4::int) \<le> 100 \<and> (4::int) mod 2 = 0 \<and> is_prime 4 = (False, Some (PrimeError 2))
   \<and> (9::int) mod 2 \<noteq> 0 \<and> (9::int) mod 3 = 0 \<and> is_prime 9 = (False, Some (PrimeError 3))
   \<and> (25::int) mod 2 \<noteq> 0 \<and> (25::int) mod 3 \<noteq> 0 \<and> is_prime 25 = (False, Some (PrimeError 5))
   \<and> is_prime 91 = (False, Some (PrimeError 7)) \<and> (91::int) mod 7 = 0 \<and> 91 \<notin> set PRIMES
   \<and> is_prime 97 = (True, None) \<and> 97 \<in> set PRIMES"
  using is_prime_reference [of 4] is_prime_reference [of 9] is_prime_reference [of 25]
    is_prime_reference [of 91] is_prime_reference [of 97]
    trial_division_spec_25 trial_division_spec_91 trial_division_spec_97
  by (simp add: PRIMES_def)

subsection \<open>Construction of the constants\<close>

lemma init_not_prime:
  assumes "\<not> fst (is_prime n)"
  shows "DiffieHellmanConstants_init g n =
     ([], Inl (if n = 0 then ValueError_n_zero
               else if n = 1 then ValueError_n_one
               else case snd (is_prime n) of
                      None \<Rightarrow> AttributeError
                    | Some e \<Rightarrow> ValueError_n_not_prime n (divisor e) (n div divisor e)))"
proof -
  obtain b perr where run: "is_prime n = (b, perr)" by (cases "is_prime n")
  with assms have "\<not> b" by simp
  with run show ?thesis
    by (cases perr) (simp_all add: DiffieHellmanConstants_init_def)
qed

lemma init_prime:
  assumes "fst (is_prime n)"
  shows "DiffieHellmanConstants_init g n =
     (if bit_length n < RECOMMENDED_N_BIT_LENGTH
      then [Warning_bit_length n (bit_length n) RECOMMENDED_N_BIT_LENGTH] else [],
      case is_primitive_root_modulo_n g n of
        (True, _) \<Rightarrow> Inr \<lparr>g_of = g, n_of = n\<rparr>
      | (False, None) \<Rightarrow> Inl AttributeError
      | (False, Some e) \<Rightarrow>
          Inl (ValueError_not_primitive_root g n (current e) (remainder e) (previous e)))"
proof -
  obtain b perr where run: "is_prime n = (b, perr)" by (cases "is_prime n")
  with assms have b: "b" by simp
  obtain root rerr where scan: "is_primitive_root_modulo_n g n = (root, rerr)"
    by (cases "is_primitive_root_modulo_n g n")
  show ?thesis
    unfolding DiffieHellmanConstants_init_def run scan Let_def using b
    by (cases root; cases rerr) simp_all
qed

lemma composite_witness:
  assumes "1 < n" "\<not> fst (is_prime n)"
  shows "\<exists>d. is_prime n = (False, Some (PrimeError d)) \<and> 1 < d \<and> d < n \<and> d dvd n"
proof -
  from assms have "3 < n" by (auto simp: is_prime_def split: if_splits)
  from is_prime_cases [OF this] assms(2)
  obtain d where d: "is_prime n = (False, Some (PrimeError d))" "2 \<le> d" "d ^ 2 \<le> n" "d dvd n"
    by auto
  then have "d < n" using square_le_less by blast
  with d show ?thesis by auto
qed

lemma not_root_witness:
  assumes "\<not> fst (is_primitive_root_modulo_n g n)"
  shows "\<exists>e. is_primitive_root_modulo_n g n = (False, Some e)"
  using assms root_loop_shape [of g n Map.empty "[0..n - 2]"]
  by (auto simp: is_primitive_root_modulo_n_def)

lemma prime_spec_23: "prime_spec 23"
proof -
  have "fst (is_prime 23)" by code_simp
  then show ?thesis by (simp add: is_prime_iff_prime_spec)
qed

lemma is_prime_10: "is_prime 10 = (False, Some (PrimeError 2))"
  by code_simp

lemma not_prime_spec_10: "\<not> prime_spec 10"
  using is_prime_iff_prime_spec [of 10] by (simp add: is_prime_10)

lemma root_4_23: "is_primitive_root_modulo_n 4 23 = (False, Some (PrimitiveRootError 11 1 0))"
  by code_simp

lemma root_5_23: "is_primitive_root_modulo_n 5 23 = (True, None)"
  by code_simp

lemma bit_length_23: "bit_length 23 = 5"
  by code_simp

text \<open>
  The outcome of \<^verbatim>\<open>DiffieHellmanConstants(g, n)\<close> in every case: it raises exactly
  when \<^verbatim>\<open>is_prime\<close> or \<^verbatim>\<open>is_primitive_root_modulo_n\<close> answers \<^verbatim>\<open>False\<close>, that is
  when \<open>n\<close> is not a prime number or two of the residues \<open>g ^ i mod n\<close> for \<open>i\<close> from
  0 to \<open>n - 2\<close> are equal. The error is "n cannot be zero" for \<open>n = 0\<close>, "n cannot be
  one" for \<open>n = 1\<close>, for a composite \<open>n\<close> the error with the divisor found and the
  cofactor \<open>n div divisor\<close>, and for a prime \<open>n\<close> whose scan finds a repeat the error
  with the two exponents and the residue. A bit length below 2048 prints the warning and
  never makes the construction fail.
\<close>

lemma constants_init_outcome:
  "((\<exists>err. snd (DiffieHellmanConstants_init g n) = Inl err) \<longleftrightarrow>
      \<not> fst (is_prime n) \<or> \<not> fst (is_primitive_root_modulo_n g n))
   \<and> ((\<exists>err. snd (DiffieHellmanConstants_init g n) = Inl err) \<longleftrightarrow>
      \<not> prime_spec n
      \<or> \<not> (\<forall>x \<in> {0..n - 2}. \<forall>y \<in> {0..n - 2}. x \<noteq> y \<longrightarrow> g ^ nat x mod n \<noteq> g ^ nat y mod n))
   \<and> (n = 0 \<longrightarrow> DiffieHellmanConstants_init g n = ([], Inl ValueError_n_zero))
   \<and> (n = 1 \<longrightarrow> DiffieHellmanConstants_init g n = ([], Inl ValueError_n_one))
   \<and> (1 < n \<and> \<not> prime_spec n \<longrightarrow>
        (\<exists>d. is_prime n = (False, Some (PrimeError d)) \<and> 1 < d \<and> d < n \<and> d * (n div d) = n
           \<and> DiffieHellmanConstants_init g n
               = ([], Inl (ValueError_n_not_prime n d (n div d)))))
   \<and> (prime_spec n \<and> \<not> fst (is_primitive_root_modulo_n g n) \<longrightarrow>
        (\<exists>c r p. is_primitive_root_modulo_n g n = (False, Some (PrimitiveRootError c r p))
           \<and> snd (DiffieHellmanConstants_init g n)
               = Inl (ValueError_not_primitive_root g n c r p)))
   \<and> (prime_spec n \<and> fst (is_primitive_root_modulo_n g n) \<longrightarrow>
        DiffieHellmanConstants_init g n
          = (if bit_length n < RECOMMENDED_N_BIT_LENGTH
             then [Warning_bit_length n (bit_length n) RECOMMENDED_N_BIT_LENGTH] else [],
             Inr \<lparr>g_of = g, n_of = n\<rparr>))"
proof -
  have fails: "(\<exists>err. snd (DiffieHellmanConstants_init g n) = Inl err) \<longleftrightarrow>
      \<not> fst (is_prime n) \<or> \<not> fst (is_primitive_root_modulo_n g n)"
  proof (cases "fst (is_prime n)")
    case False
    then show ?thesis by (simp add: init_not_prime)
  next
    case True
    obtain root rerr where scan: "is_primitive_root_modulo_n g n = (root, rerr)"
      by (cases "is_primitive_root_modulo_n g n")
    show ?thesis
      unfolding init_prime [OF True] scan using True
      by (cases root; cases rerr) simp_all
  qed
  have distinct: "fst (is_primitive_root_modulo_n g n) \<longleftrightarrow>
      (\<forall>x \<in> {0..n - 2}. \<forall>y \<in> {0..n - 2}. x \<noteq> y \<longrightarrow> g ^ nat x mod n \<noteq> g ^ nat y mod n)"
    using root_modulo_n_pairwise [of g n] by (simp add: root_modulo_n_shape)
  have zero: "DiffieHellmanConstants_init g n = ([], Inl ValueError_n_zero)" if "n = 0"
    using that by (simp add: init_not_prime is_prime_def)
  have one: "DiffieHellmanConstants_init g n = ([], Inl ValueError_n_one)" if "n = 1"
    using that by (simp add: init_not_prime is_prime_def)
  have composite: "\<exists>d. is_prime n = (False, Some (PrimeError d)) \<and> 1 < d \<and> d < n
      \<and> d * (n div d) = n
      \<and> DiffieHellmanConstants_init g n = ([], Inl (ValueError_n_not_prime n d (n div d)))"
    if "1 < n \<and> \<not> prime_spec n"
  proof -
    from that have np: "\<not> fst (is_prime n)" by (simp add: is_prime_iff_prime_spec)
    with that obtain d where d: "is_prime n = (False, Some (PrimeError d))" "1 < d" "d < n" "d dvd n"
      using composite_witness [of n] by blast
    from that d have "DiffieHellmanConstants_init g n
        = ([], Inl (ValueError_n_not_prime n d (n div d)))"
      by (simp add: init_not_prime [OF np])
    with d show ?thesis by simp
  qed
  have not_root: "\<exists>c r p. is_primitive_root_modulo_n g n = (False, Some (PrimitiveRootError c r p))
      \<and> snd (DiffieHellmanConstants_init g n) = Inl (ValueError_not_primitive_root g n c r p)"
    if "prime_spec n \<and> \<not> fst (is_primitive_root_modulo_n g n)"
  proof -
    from that obtain e where e: "is_primitive_root_modulo_n g n = (False, Some e)"
      using not_root_witness by blast
    obtain c r p where "e = PrimitiveRootError c r p" by (cases e)
    with e that show ?thesis by (simp add: init_prime is_prime_iff_prime_spec)
  qed
  have ok: "DiffieHellmanConstants_init g n
          = (if bit_length n < RECOMMENDED_N_BIT_LENGTH
             then [Warning_bit_length n (bit_length n) RECOMMENDED_N_BIT_LENGTH] else [],
             Inr \<lparr>g_of = g, n_of = n\<rparr>)"
    if "prime_spec n \<and> fst (is_primitive_root_modulo_n g n)"
  proof -
    from that have "fst (is_prime n)" by (simp add: is_prime_iff_prime_spec)
    moreover from that have "is_primitive_root_modulo_n g n = (True, None)"
      by (simp add: root_modulo_n_shape)
    ultimately show ?thesis by (simp add: init_prime)
  qed
  from fails distinct zero one composite not_root ok show ?thesis
    unfolding is_prime_iff_prime_spec by blast
qed

lemma constants_init_examples:
  "DiffieHellmanConstants_init 2 0 = ([], Inl ValueError_n_zero)
   \<and> DiffieHellmanConstants_init 2 1 = ([], Inl ValueError_n_one)
   \<and> (1::int) < 10 \<and> \<not> prime_spec 10
   \<and> DiffieHellmanConstants_init 2 10 = ([], Inl (ValueError_n_not_prime 10 2 5))
   \<and> prime_spec 23 \<and> \<not> fst (is_primitive_root_modulo_n 4 23)
   \<and> snd (DiffieHellmanConstants_init 4 23) = Inl (ValueError_not_primitive_root 4 23 11 1 0)
   \<and> fst (is_primitive_root_modulo_n 5 23)
   \<and> bit_length 23 < RECOMMENDED_N_BIT_LENGTH
   \<and> DiffieHellmanConstants_init 5 23
       = ([Warning_bit_length 23 5 2048], Inr \<lparr>g_of = 5, n_of = 23\<rparr>)"
proof -
  have zero: "DiffieHellmanConstants_init 2 0 = ([], Inl ValueError_n_zero)"
    using constants_init_outcome [of 2 0] by simp
  have one: "DiffieHellmanConstants_init 2 1 = ([], Inl ValueError_n_one)"
    using constants_init_outcome [of 2 1] by simp
  have ten: "DiffieHellmanConstants_init 2 10 = ([], Inl (ValueError_n_not_prime 10 2 5))"
    using constants_init_outcome [of 2 10] not_prime_spec_10 by (simp add: is_prime_10)
  have four: "snd (DiffieHellmanConstants_init 4 23)
      = Inl (ValueError_not_primitive_root 4 23 11 1 0)"
    using constants_init_outcome [of 4 23] prime_spec_23 by (simp add: root_4_23)
  have five: "DiffieHellmanConstants_init 5 23
      = ([Warning_bit_length 23 5 2048], Inr \<lparr>g_of = 5, n_of = 23\<rparr>)"
    using constants_init_outcome [of 5 23] prime_spec_23
    by (simp add: root_5_23 bit_length_23 RECOMMENDED_N_BIT_LENGTH_def)
  from zero one ten four five not_prime_spec_10 prime_spec_23 show ?thesis
    by (simp add: root_4_23 root_5_23 bit_length_23 RECOMMENDED_N_BIT_LENGTH_def)
qed

subsection \<open>Constants that are accepted with no primitive root\<close>

text \<open>
  The scan visits the exponents 0 to \<open>n - 2\<close> only. For \<open>n = 3\<close> these are 0 and 1,
  and a multiple of 3 has the residues 1 and 0 there; for \<open>n = 2\<close> there is the exponent
  0 alone.
\<close>

lemma multiple_not_coprime:
  fixes g n :: int
  assumes "g mod n = 0" "1 < n"
  shows "\<not> coprime g n"
proof
  assume "coprime g n"
  moreover from assms(1) have "n dvd g" by (simp add: dvd_eq_mod_eq_0)
  moreover have "n dvd n" by simp
  ultimately have "is_unit n" by (rule coprime_common_divisor)
  with assms(2) show False by simp
qed

lemma power_multiple_mod:
  fixes g n :: int
  assumes "g mod n = 0"
  shows "g ^ k mod n = (if k = 0 then 1 mod n else 0)"
proof (cases k)
  case 0
  then show ?thesis by simp
next
  case (Suc j)
  from assms have "n dvd g" by (simp add: dvd_eq_mod_eq_0)
  then have "n dvd g ^ Suc j" by simp
  with Suc show ?thesis by (simp add: dvd_eq_mod_eq_0)
qed

lemma root_scan_multiple_of_3:
  assumes "g mod 3 = 0"
  shows "is_primitive_root_modulo_n g 3 = (True, None)"
proof -
  have "[0..(3::int) - 2] = [0, 1]" by (simp add: upto.simps)
  with assms show ?thesis by (simp add: is_primitive_root_modulo_n_def)
qed

lemma root_scan_modulus_2: "is_primitive_root_modulo_n g 2 = (True, None)"
  by (simp add: is_primitive_root_modulo_n_def upto.simps)

lemma bit_length_3: "bit_length 3 = 2"
  by code_simp

lemma bit_length_2: "bit_length 2 = 2"
  by code_simp

text \<open>
  C4. \<^verbatim>\<open>DiffieHellmanConstants(g, n)\<close> is to fail exactly when \<open>n\<close> is not prime or \<open>g\<close>
  is not a primitive root modulo \<open>n\<close>. The code does not: 3 is prime, and for every
  \<open>g\<close> that is a multiple of 3 (0 among them) no power of \<open>g\<close> has the residue 2, so
  \<open>g\<close> is no primitive root modulo 3, yet the scan answers \<^verbatim>\<open>(True, None)\<close> and the
  constants are constructed, with the bit-length warning printed. The same holds for
  every even \<open>g\<close> with the prime 2.
\<close>

theorem constants_accept_non_root:
  "(g mod 3 = 0 \<longrightarrow>
      prime_spec 3 \<and> \<not> primitive_root_spec g 3 \<and> (\<forall>k::nat. g ^ k mod 3 \<noteq> 2)
      \<and> is_primitive_root_modulo_n g 3 = (True, None)
      \<and> DiffieHellmanConstants_init g 3
          = ([Warning_bit_length 3 2 2048], Inr \<lparr>g_of = g, n_of = 3\<rparr>))
   \<and> (g mod 2 = 0 \<longrightarrow>
      prime_spec 2 \<and> \<not> primitive_root_spec g 2
      \<and> is_primitive_root_modulo_n g 2 = (True, None)
      \<and> DiffieHellmanConstants_init g 2
          = ([Warning_bit_length 2 2 2048], Inr \<lparr>g_of = g, n_of = 2\<rparr>))"
proof (intro conjI impI)
  have p3: "fst (is_prime 3)" by (simp add: is_prime_def)
  have p2: "fst (is_prime 2)" by (simp add: is_prime_def)
  show "prime_spec 3" using p3 by (simp add: is_prime_iff_prime_spec)
  show "prime_spec 2" using p2 by (simp add: is_prime_iff_prime_spec)
  {
    assume g: "g mod 3 = 0"
    show "\<not> primitive_root_spec g 3"
      using multiple_not_coprime [OF g] by (simp add: primitive_root_spec_def)
    show "\<forall>k::nat. g ^ k mod 3 \<noteq> 2"
      by (simp add: power_multiple_mod [OF g])
    show scan: "is_primitive_root_modulo_n g 3 = (True, None)"
      using g by (rule root_scan_multiple_of_3)
    show "DiffieHellmanConstants_init g 3
          = ([Warning_bit_length 3 2 2048], Inr \<lparr>g_of = g, n_of = 3\<rparr>)"
      by (simp add: init_prime [OF p3] scan bit_length_3 RECOMMENDED_N_BIT_LENGTH_def)
  }
  {
    assume g: "g mod 2 = 0"
    show "\<not> primitive_root_spec g 2"
      using multiple_not_coprime [OF g] by (simp add: primitive_root_spec_def)
    show "is_primitive_root_modulo_n g 2 = (True, None)"
      by (rule root_scan_modulus_2)
    show "DiffieHellmanConstants_init g 2
          = ([Warning_bit_length 2 2 2048], Inr \<lparr>g_of = g, n_of = 2\<rparr>)"
      by (simp add: init_prime [OF p2] root_scan_modulus_2 bit_length_2
            RECOMMENDED_N_BIT_LENGTH_def)
  }
qed

theorem constants_accept_non_root_witness:
  "(0::int) mod 3 = 0 \<and> prime_spec 3 \<and> \<not> primitive_root_spec 0 3
   \<and> is_primitive_root_modulo_n 0 3 = (True, None)
   \<and> DiffieHellmanConstants_init 0 3
       = ([Warning_bit_length 3 2 2048], Inr \<lparr>g_of = 0, n_of = 3\<rparr>)
   \<and> (0::int) mod 2 = 0 \<and> prime_spec 2 \<and> \<not> primitive_root_spec 0 2
   \<and> DiffieHellmanConstants_init 0 2
       = ([Warning_bit_length 2 2 2048], Inr \<lparr>g_of = 0, n_of = 2\<rparr>)"
  using constants_accept_non_root [of 0]
  by simp

end
